theory Spec2Isabelle
  imports
    Complex_Main
    "HOL-Library.Multiset"
    "HOL-Library.Char_ord"
    "HOL-Library.List_Lexorder"
    "HOL-Library.Product_Lexorder"
begin

section \<open>infodump+: the largest-files scanner, the CPU ranker and the report driver\<close>

text \<open>
  The development embeds \<^verbatim>\<open>largest_files\<close>, \<^verbatim>\<open>top_cpu_processes\<close> and \<^verbatim>\<open>main\<close> of
  \<^verbatim>\<open>infodump+.py\<close>. What a function prints is the list of lines it emits, in order; the
  choice between the styled console and plain \<^verbatim>\<open>print\<close> changes no line and is left out.
  What the operating system answers (the directory tree, the outcome of each size read,
  the process snapshot, the other report sections) is an explicit argument.
\<close>

subsection \<open>Values, exceptions and emitted lines\<close>

datatype py_error = TypeError | KeyError | OSError string

text \<open>
  The value under the key \<^verbatim>\<open>cpu_percent\<close> of a process: a number (a float, or the int
  default \<^verbatim>\<open>0\<close>; Python compares both by numeric value), or \<^verbatim>\<open>None\<close>.
\<close>

datatype pyval = PyNone | PyNum rat

text \<open>
  A process line stands for the f-string \<^verbatim>\<open>{pid} - {name} ({cpu_percent}% CPU)\<close> and an
  error line for \<^verbatim>\<open>Error: {e}\<close>; their interpolated fields are kept as they are.
\<close>

datatype out_line =
    Header string
  | Line string
  | ErrorLine py_error
  | ProcLine int string pyval

subsection \<open>Rendering numbers\<close>

definition digit_char :: "nat \<Rightarrow> char" where
  "digit_char d = ''0123456789'' ! d"

fun show_nat :: "nat \<Rightarrow> string" where
  "show_nat n = (if n < 10 then [digit_char n] else show_nat (n div 10) @ [digit_char (n mod 10)])"

definition show_int :: "int \<Rightarrow> string" where
  "show_int i = (if i < 0 then CHR ''-'' # show_nat (nat (- i)) else show_nat (nat i))"

text \<open>Rounding the fraction \<open>a / b\<close> (\<open>b > 0\<close>) to the nearest integer, ties to even.\<close>

definition round_half_even :: "nat \<Rightarrow> nat \<Rightarrow> nat" where
  "round_half_even a b =
     (let q = a div b; r = a mod b
      in if 2 * r < b then q
         else if b < 2 * r then q + 1
         else if even q then q else q + 1)"

fun bit_length :: "nat \<Rightarrow> nat" where
  "bit_length n = (if n = 0 then 0 else Suc (bit_length (n div 2)))"

declare show_nat.simps [simp del] bit_length.simps [simp del]

text \<open>Reading a printed natural number back, to say what a digit string denotes.\<close>

definition digit_value :: "char \<Rightarrow> nat" where
  "digit_value c = of_char c - 48"

definition nat_of_digits :: "string \<Rightarrow> nat" where
  "nat_of_digits s = foldl (\<lambda>acc c. 10 * acc + digit_value c) 0 s"

text \<open>
  \<^verbatim>\<open>size / (1024 ** k)\<close> is Python's true division of two ints: the double nearest to the
  exact quotient. The divisor is a power of two, so the quotient's significand is that of
  \<open>size\<close>, rounded to 53 bits when it has more. \<open>to_double n\<close> is that rounded integer.
\<close>

definition to_double :: "nat \<Rightarrow> nat" where
  "to_double n =
     (if bit_length n \<le> 53 then n
      else let e = bit_length n - 53 in round_half_even n (2 ^ e) * 2 ^ e)"

text \<open>
  \<open>fmt_2f sz d\<close> is \<^verbatim>\<open>f"{size / d:.2f}"\<close> for a divisor \<open>d\<close> that is a power of two: the
  double \<open>to_double sz / d\<close> printed with two decimals, correctly rounded (ties to even)
  from its exact value. \<open>h\<close> is the printed number in hundredths.
\<close>

definition fmt_2f :: "nat \<Rightarrow> nat \<Rightarrow> string" where
  "fmt_2f sz d =
     (let h = round_half_even (to_double sz * 100) d
      in show_nat (h div 100) @ ''.'' @ [digit_char (h mod 100 div 10), digit_char (h mod 10)])"

subsection \<open>The directory tree and \<^verbatim>\<open>os.walk\<close>\<close>

text \<open>
  A node of the tree under the root, as the scan meets it.
  \<^item> \<open>File r\<close>: an entry that is not a directory, with the outcome \<open>r\<close> of
    \<^verbatim>\<open>os.path.getsize\<close> on its path at the moment the scan reads it: \<open>Some size\<close>, or
    \<open>None\<close> when it raises \<^verbatim>\<open>OSError\<close> (removed since the listing, permission denied,
    broken symlink).
  \<^item> \<open>Dir r\<close>: a directory, with the outcome \<open>r\<close> of listing it: \<open>Some entries\<close> in the
    order of the listing, or \<open>None\<close> when the listing raises \<^verbatim>\<open>OSError\<close>. A symlink to a
    directory, which \<^verbatim>\<open>os.walk\<close> lists among the directories and does not enter, is
    \<open>Dir None\<close> as well.
\<close>

datatype fsnode = File "nat option" | Dir "(string \<times> fsnode) list option"

fun is_dir :: "fsnode \<Rightarrow> bool" where
  "is_dir (Dir _) = True"
| "is_dir (File _) = False"

fun getsize :: "fsnode \<Rightarrow> nat option" where
  "getsize (File r) = r"
| "getsize (Dir _) = None"

text \<open>\<^verbatim>\<open>os.path.join\<close> of two components (POSIX).\<close>

definition path_join :: "string \<Rightarrow> string \<Rightarrow> string" where
  "path_join a b =
     (if b \<noteq> [] \<and> hd b = CHR ''/'' then b
      else if a = [] \<or> last a = CHR ''/'' then a @ b
      else a @ ''/'' @ b)"

text \<open>
  \<^verbatim>\<open>os.walk(path)\<close>, top-down, called without \<^verbatim>\<open>onerror\<close>: a directory whose listing
  raises \<^verbatim>\<open>OSError\<close> is passed over in silence and yields nothing, and so does a root that
  is missing or is not a directory. Each yielded triple is the directory's path, the
  names of its subdirectories and its other entries; an entry of the third component
  carries the node behind the name, which stands for the file system state that
  \<^verbatim>\<open>os.path.getsize\<close> reads.
\<close>

fun os_walk :: "string \<Rightarrow> fsnode \<Rightarrow> (string \<times> string list \<times> (string \<times> fsnode) list) list" where
  "os_walk d (File r) = []"
| "os_walk d (Dir None) = []"
| "os_walk d (Dir (Some ents)) =
     (d, map fst (filter (\<lambda>e. is_dir (snd e)) ents), filter (\<lambda>e. \<not> is_dir (snd e)) ents)
     # concat (map (\<lambda>e. if is_dir (snd e) then os_walk (path_join d (fst e)) (snd e) else []) ents)"

text \<open>The root of the scan: \<open>None\<close> when the path does not exist.\<close>

definition walk_root :: "string \<Rightarrow> fsnode option \<Rightarrow> (string \<times> string list \<times> (string \<times> fsnode) list) list" where
  "walk_root path fs = (case fs of None \<Rightarrow> [] | Some node \<Rightarrow> os_walk path node)"

subsection \<open>\<^verbatim>\<open>largest_files\<close>\<close>

text \<open>
  What a report section does: the lines it has printed, and the exception that leaves
  it, if any.
\<close>

type_synonym section_result = "out_line list \<times> py_error option"

text \<open>
  The inner loop over \<^verbatim>\<open>filenames\<close>: a size read that raises \<^verbatim>\<open>OSError\<close> takes the
  \<^verbatim>\<open>continue\<close> branch and appends nothing.
\<close>

fun scan_names :: "string \<Rightarrow> (string \<times> fsnode) list \<Rightarrow> (nat \<times> string) list \<Rightarrow> (nat \<times> string) list" where
  "scan_names d [] files = files"
| "scan_names d (e # rest) files =
     (let fpath = path_join d (fst e)
      in case getsize (snd e) of
           Some sz \<Rightarrow> scan_names d rest (files @ [(sz, fpath)])
         | None \<Rightarrow> scan_names d rest files)"

text \<open>The outer loop over the triples of the walk.\<close>

fun scan_walk :: "(string \<times> string list \<times> (string \<times> fsnode) list) list \<Rightarrow> (nat \<times> string) list \<Rightarrow> (nat \<times> string) list" where
  "scan_walk [] files = files"
| "scan_walk (t # rest) files = scan_walk rest (scan_names (fst t) (snd (snd t)) files)"

definition collect :: "string \<Rightarrow> fsnode option \<Rightarrow> (nat \<times> string) list" where
  "collect path fs = scan_walk (walk_root path fs) []"

text \<open>
  \<^verbatim>\<open>sorted(files, reverse=True)\<close> on tuples \<^verbatim>\<open>(size, fpath)\<close>: Python compares the sizes,
  then the paths, character by character; that is the lexicographic order of
  \<^typ>\<open>nat \<times> string\<close>, and no comparison raises. With \<^verbatim>\<open>reverse=True\<close> the sort stays
  stable: it reverses, sorts ascending, and reverses again.
\<close>

definition sorted_reverse :: "('a::linorder) list \<Rightarrow> 'a list" where
  "sorted_reverse xs = rev (sort_key (\<lambda>x. x) (rev xs))"

text \<open>The slice \<^verbatim>\<open>xs[:n]\<close>: a negative \<open>n\<close> counts from the end.\<close>

definition slice_to :: "'a list \<Rightarrow> int \<Rightarrow> 'a list" where
  "slice_to xs n =
     (if 0 \<le> n then take (nat n) xs else take (nat (int (length xs) + n)) xs)"

definition selected_files :: "string \<Rightarrow> int \<Rightarrow> fsnode option \<Rightarrow> (nat \<times> string) list" where
  "selected_files path cnt fs = slice_to (sorted_reverse (collect path fs)) cnt"

definition format_size :: "nat \<Rightarrow> string" where
  "format_size sz =
     (if sz \<ge> 1024 ^ 3 then fmt_2f sz (1024 ^ 3) @ '' GB''
      else fmt_2f sz (1024 ^ 2) @ '' MB'')"

definition file_line :: "nat \<times> string \<Rightarrow> out_line" where
  "file_line e = Line (format_size (fst e) @ '' - '' @ snd e)"

text \<open>
  The body of the \<^verbatim>\<open>try\<close>. None of its statements raises: the walk passes over what it
  cannot list, each size read is guarded by the inner \<^verbatim>\<open>except OSError\<close>, and sorting,
  slicing and formatting are total on sizes and paths.
\<close>

definition largest_files_body :: "string \<Rightarrow> int \<Rightarrow> fsnode option \<Rightarrow> section_result" where
  "largest_files_body path cnt fs = (map file_line (selected_files path cnt fs), None)"

text \<open>The function: the header, the body, and the handler \<^verbatim>\<open>except Exception as e\<close>.\<close>

definition largest_files :: "string \<Rightarrow> int \<Rightarrow> fsnode option \<Rightarrow> section_result" where
  "largest_files path cnt fs =
     (case largest_files_body path cnt fs of
        (ls, None) \<Rightarrow> (Header (show_int cnt @ '' LARGEST FILES in '' @ path) # ls, None)
      | (ls, Some e) \<Rightarrow>
          (Header (show_int cnt @ '' LARGEST FILES in '' @ path) # ls @ [ErrorLine e], None))"

subsection \<open>\<^verbatim>\<open>top_cpu_processes\<close>\<close>

text \<open>
  The \<^verbatim>\<open>info\<close> dictionary of a process. \<open>cpu_percent p = None\<close>: the dictionary has no
  key \<^verbatim>\<open>cpu_percent\<close>; \<open>Some PyNone\<close>: the key is there and holds \<^verbatim>\<open>None\<close>.
\<close>

record proc =
  pid :: int
  name :: string
  cpu_percent :: "pyval option"

text \<open>The sort key \<^verbatim>\<open>p.info.get('cpu_percent', 0)\<close>.\<close>

definition usage_key :: "proc \<Rightarrow> pyval" where
  "usage_key p = (case cpu_percent p of Some v \<Rightarrow> v | None \<Rightarrow> PyNum 0)"

text \<open>Python's \<^verbatim>\<open><\<close> on two keys: defined between numbers, a \<^verbatim>\<open>TypeError\<close> otherwise.\<close>

fun py_lt :: "pyval \<Rightarrow> pyval \<Rightarrow> py_error + bool" where
  "py_lt (PyNum a) (PyNum b) = Inr (a < b)"
| "py_lt _ _ = Inl TypeError"

text \<open>
  \<^verbatim>\<open>sorted(..., key=..., reverse=True)\<close> as a stable insertion sort that asks only
  \<^verbatim>\<open><\<close> of two keys and stops at the first comparison that raises. A list of fewer
  than two elements is sorted without any comparison.
\<close>

fun py_insort :: "('a \<Rightarrow> pyval) \<Rightarrow> 'a \<Rightarrow> 'a list \<Rightarrow> py_error + 'a list" where
  "py_insort key x [] = Inr [x]"
| "py_insort key x (y # ys) =
     (case py_lt (key y) (key x) of
        Inl e \<Rightarrow> Inl e
      | Inr True \<Rightarrow> (case py_insort key x ys of Inl e \<Rightarrow> Inl e | Inr zs \<Rightarrow> Inr (y # zs))
      | Inr False \<Rightarrow> Inr (x # y # ys))"

fun py_sort :: "('a \<Rightarrow> pyval) \<Rightarrow> 'a list \<Rightarrow> py_error + 'a list" where
  "py_sort key [] = Inr []"
| "py_sort key (x # xs) =
     (case py_sort key xs of Inl e \<Rightarrow> Inl e | Inr ys \<Rightarrow> py_insort key x ys)"

definition py_sorted_reverse :: "('a \<Rightarrow> pyval) \<Rightarrow> 'a list \<Rightarrow> py_error + 'a list" where
  "py_sorted_reverse key xs =
     (case py_sort key (rev xs) of Inl e \<Rightarrow> Inl e | Inr ys \<Rightarrow> Inr (rev ys))"

text \<open>The ranking \<^verbatim>\<open>processes\<close> of lines 158 to 162.\<close>

definition rank :: "proc list \<Rightarrow> py_error + proc list" where
  "rank procs = py_sorted_reverse usage_key procs"

text \<open>
  The printing loop: \<^verbatim>\<open>p.info['cpu_percent']\<close> raises \<^verbatim>\<open>KeyError\<close> on a dictionary
  without that key, after the lines before it have been printed.
\<close>

fun print_procs :: "proc list \<Rightarrow> section_result" where
  "print_procs [] = ([], None)"
| "print_procs (p # ps) =
     (case cpu_percent p of
        None \<Rightarrow> ([], Some KeyError)
      | Some v \<Rightarrow> (ProcLine (pid p) (name p) v # fst (print_procs ps), snd (print_procs ps)))"

text \<open>
  The snapshot \<^verbatim>\<open>psutil.process_iter([...])\<close> is the argument: the processes in the
  order of the enumeration, or the exception the enumeration raises. The function has
  no handler, so an exception of the snapshot or of the sort leaves it.
\<close>

definition top_cpu_processes :: "int \<Rightarrow> py_error + proc list \<Rightarrow> section_result" where
  "top_cpu_processes n snapshot =
     (case snapshot of
        Inl e \<Rightarrow> ([Header (''TOP '' @ show_int n @ '' CPU PROCESSES'')], Some e)
      | Inr procs \<Rightarrow>
          (case rank procs of
             Inl e \<Rightarrow> ([Header (''TOP '' @ show_int n @ '' CPU PROCESSES'')], Some e)
           | Inr processes \<Rightarrow>
               (Header (''TOP '' @ show_int n @ '' CPU PROCESSES'')
                  # fst (print_procs (slice_to processes n)),
                snd (print_procs (slice_to processes n)))))"

subsection \<open>\<^verbatim>\<open>main\<close>\<close>

text \<open>
  The host as one run sees it. The sections that only query the system and print
  (\<^verbatim>\<open>get_basic_info\<close>, \<^verbatim>\<open>check_network\<close>, \<^verbatim>\<open>show_memory\<close>, \<^verbatim>\<open>show_disks\<close>,
  \<^verbatim>\<open>show_temperatures\<close>, \<^verbatim>\<open>show_nvidia_temperature\<close>) are given by what they do on
  this host.
\<close>

record host =
  get_basic_info :: section_result
  check_network :: section_result
  show_memory :: section_result
  show_disks :: section_result
  fs_root :: "string \<Rightarrow> fsnode option"
  process_iter :: "py_error + proc list"
  show_temperatures :: section_result
  show_nvidia_temperature :: section_result

record args =
  path :: string
  largest :: int
  cpu :: int
  no_temp :: bool
  no_nvidia :: bool

text \<open>
  Statements in sequence: the next one runs only when the one before returned; an
  exception ends the sequence and is its outcome.
\<close>

fun run_sections :: "section_result list \<Rightarrow> section_result" where
  "run_sections [] = ([], None)"
| "run_sections ((ls, Some e) # rest) = (ls, Some e)"
| "run_sections ((ls, None) # rest) = (ls @ fst (run_sections rest), snd (run_sections rest))"

definition main :: "host \<Rightarrow> args \<Rightarrow> section_result" where
  "main h a =
     run_sections
       ([get_basic_info h, check_network h, show_memory h, show_disks h,
         largest_files (path a) (largest a) (fs_root h (path a)),
         top_cpu_processes (cpu a) (process_iter h)]
        @ (if \<not> no_temp a then [show_temperatures h] else [])
        @ (if \<not> no_nvidia a then [show_nvidia_temperature h] else []))"

section \<open>The specification's bounded heap\<close>

text \<open>
  The specification allows, in place of the full buffer, a bounded top-K heap of size
  \<open>K\<close>. That selection is defined here from the specification's words, to be compared
  with the selection of the code: a min-heap that never holds more than \<open>K\<close> pairs; a
  pair is pushed while there is room, and afterwards replaces the least pair of the heap
  when it is greater; at the end the heap is emptied, least pair first, and the
  result is read in descending order.
\<close>

datatype 'a heap = Empty | Hp "'a heap" 'a "'a heap"

fun heap_merge :: "'a::linorder heap \<Rightarrow> 'a heap \<Rightarrow> 'a heap" where
  "heap_merge Empty h = h"
| "heap_merge h Empty = h"
| "heap_merge (Hp l1 a1 r1) (Hp l2 a2 r2) =
     (if a1 \<le> a2 then Hp l1 a1 (heap_merge r1 (Hp l2 a2 r2))
      else Hp l2 a2 (heap_merge (Hp l1 a1 r1) r2))"

definition heap_push :: "'a::linorder \<Rightarrow> 'a heap \<Rightarrow> 'a heap" where
  "heap_push x h = heap_merge (Hp Empty x Empty) h"

fun heap_size :: "'a heap \<Rightarrow> nat" where
  "heap_size Empty = 0"
| "heap_size (Hp l a r) = Suc (heap_size l + heap_size r)"

function heap_drain :: "'a::linorder heap \<Rightarrow> 'a list" where
  "heap_drain Empty = []"
| "heap_drain (Hp l a r) = a # heap_drain (heap_merge l r)"
  by pat_completeness auto
termination
proof (relation "measure heap_size")
  show "wf (measure heap_size)" by simp
next
  fix l r :: "'a heap" and a :: 'a
  have "heap_size (heap_merge u v) = heap_size u + heap_size v" for u v :: "'a heap"
    by (induction u v rule: heap_merge.induct) simp_all
  then show "(heap_merge l r, Hp l a r) \<in> measure heap_size" by simp
qed

definition topk_offer :: "nat \<Rightarrow> 'a::linorder \<Rightarrow> 'a heap \<Rightarrow> 'a heap" where
  "topk_offer K x h =
     (if heap_size h < K then heap_push x h
      else case h of
             Empty \<Rightarrow> Empty
           | Hp l m r \<Rightarrow> if m < x then heap_push x (heap_merge l r) else h)"

definition spec_topk_heap :: "nat \<Rightarrow> 'a::linorder list \<Rightarrow> 'a list" where
  "spec_topk_heap K xs = rev (heap_drain (fold (topk_offer K) xs Empty))"

section \<open>Notions used to state the properties\<close>

text \<open>The number that a numeric key holds, to state the order of a ranking.\<close>

definition num_of :: "pyval \<Rightarrow> rat" where
  "num_of v = (case v of PyNum r \<Rightarrow> r | PyNone \<Rightarrow> 0)"

definition usage :: "proc \<Rightarrow> rat" where
  "usage p = num_of (usage_key p)"

text \<open>The elements of a heap, and the heap order (every node is at most its descendants).\<close>

fun heap_mset :: "'a heap \<Rightarrow> 'a multiset" where
  "heap_mset Empty = {#}"
| "heap_mset (Hp l a r) = add_mset a (heap_mset l + heap_mset r)"

fun heap_ok :: "'a::linorder heap \<Rightarrow> bool" where
  "heap_ok Empty = True"
| "heap_ok (Hp l a r) = ((\<forall>x \<in># heap_mset l + heap_mset r. a \<le> x) \<and> heap_ok l \<and> heap_ok r)"

text \<open>
  \<open>T\<close> holds \<open>K\<close> greatest elements of \<open>M\<close>: \<open>min K (size M)\<close> of them, none smaller than an
  element left out.
\<close>

definition is_topk :: "nat \<Rightarrow> 'a::linorder multiset \<Rightarrow> 'a multiset \<Rightarrow> bool" where
  "is_topk K T M \<longleftrightarrow>
     T \<subseteq># M \<and> size T = min K (size M) \<and> (\<forall>a \<in># T. \<forall>b \<in># M - T. b \<le> a)"

section \<open>Facts about the model\<close>

subsection \<open>Facts about the rendering of numbers\<close>

lemma digit_cases: "d < 10 \<Longrightarrow> d \<in> {0, 1, 2, 3, 4, 5, 6, 7, 8, 9::nat}"
  by auto

lemma digit_value_digit_char: "d < 10 \<Longrightarrow> digit_value (digit_char d) = d"
  by (drule digit_cases) (auto simp: digit_value_def digit_char_def)

lemma digit_char_is_digit: "d < 10 \<Longrightarrow> digit_char d \<in> set ''0123456789''"
  by (drule digit_cases) (auto simp: digit_char_def)

lemma show_nat_nonempty: "show_nat n \<noteq> []"
  by (subst show_nat.simps) simp

lemma show_nat_digits: "set (show_nat n) \<subseteq> set ''0123456789''"
proof (induction n rule: show_nat.induct)
  case (1 n)
  show ?case
  proof (cases "n < 10")
    case True
    then show ?thesis
      using digit_char_is_digit[of n] by (subst show_nat.simps) simp
  next
    case False
    have "digit_char (n mod 10) \<in> set ''0123456789''"
      by (rule digit_char_is_digit) simp
    with False 1 show ?thesis
      by (subst show_nat.simps) simp
  qed
qed

lemma nat_of_digits_snoc: "nat_of_digits (s @ [c]) = 10 * nat_of_digits s + digit_value c"
  by (simp add: nat_of_digits_def)

lemma nat_of_digits_show_nat: "nat_of_digits (show_nat n) = n"
proof (induction n rule: show_nat.induct)
  case (1 n)
  show ?case
  proof (cases "n < 10")
    case True
    then show ?thesis
      by (subst show_nat.simps) (simp add: nat_of_digits_def digit_value_digit_char)
  next
    case False
    with 1 have "nat_of_digits (show_nat (n div 10)) = n div 10" by simp
    with False show ?thesis
      by (subst show_nat.simps) (simp add: nat_of_digits_snoc digit_value_digit_char)
  qed
qed

lemma round_half_even_nearest:
  assumes "0 < b"
  shows "2 * \<bar>int (round_half_even a b) * int b - int a\<bar> \<le> int b"
proof -
  define q r where "q = a div b" and "r = a mod b"
  define qb where "qb = int q * int b"
  have a: "int a = qb + int r"
    unfolding q_def r_def qb_def by (metis div_mult_mod_eq of_nat_add of_nat_mult)
  have r: "int r < int b" unfolding r_def using assms by simp
  have up: "int (q + 1) * int b = qb + int b"
    by (simp add: qb_def algebra_simps)
  consider "2 * r < b" | "b < 2 * r" | "2 * r = b" by linarith
  then show ?thesis
  proof cases
    case 1
    then have "round_half_even a b = q"
      by (simp add: round_half_even_def q_def r_def Let_def)
    with 1 a show ?thesis by (simp add: qb_def[symmetric])
  next
    case 2
    then have "round_half_even a b = q + 1"
      by (simp add: round_half_even_def q_def r_def Let_def)
    with 2 a r up show ?thesis by simp
  next
    case 3
    then have "round_half_even a b = q \<or> round_half_even a b = q + 1"
      by (simp add: round_half_even_def q_def r_def Let_def)
    then show ?thesis
    proof
      assume "round_half_even a b = q"
      with 3 a show ?thesis by (simp add: qb_def[symmetric])
    next
      assume "round_half_even a b = q + 1"
      with 3 a r up show ?thesis by simp
    qed
  qed
qed

lemma bit_length_le: "bit_length n \<le> k \<longleftrightarrow> n < 2 ^ k"
proof (induction n arbitrary: k rule: bit_length.induct)
  case (1 n)
  show ?case
  proof (cases "n = 0")
    case True
    then show ?thesis by (subst bit_length.simps) simp
  next
    case False
    show ?thesis
    proof (cases k)
      case 0
      with False show ?thesis by (subst bit_length.simps) simp
    next
      case (Suc j)
      have "bit_length n \<le> Suc j \<longleftrightarrow> bit_length (n div 2) \<le> j"
        using False by (subst bit_length.simps) simp
      also have "\<dots> \<longleftrightarrow> n div 2 < 2 ^ j"
        using 1[OF False] .
      also have "\<dots> \<longleftrightarrow> n < 2 ^ Suc j"
        by auto
      finally show ?thesis using Suc by simp
    qed
  qed
qed

lemma to_double_exact: "n < 2 ^ 53 \<Longrightarrow> to_double n = n"
  using bit_length_le[of n 53] by (simp add: to_double_def)

lemma fmt_2f_shape:
  "\<exists>h. fmt_2f sz d = show_nat (h div 100) @ ''.'' @ [digit_char (h mod 100 div 10), digit_char (h mod 10)]
       \<and> h = round_half_even (to_double sz * 100) d
       \<and> nat_of_digits (show_nat (h div 100)) * 100
            + nat_of_digits [digit_char (h mod 100 div 10), digit_char (h mod 10)] = h
       \<and> set (show_nat (h div 100)) \<subseteq> set ''0123456789''
       \<and> digit_char (h mod 100 div 10) \<in> set ''0123456789''
       \<and> digit_char (h mod 10) \<in> set ''0123456789''"
proof -
  define h where "h = round_half_even (to_double sz * 100) d"
  have d1: "h mod 100 div 10 < 10" by simp
  have d2: "h mod 10 < 10" by simp
  have "h mod 10 = h mod 100 mod 10"
    by (simp add: mod_mod_cancel)
  then have split: "10 * (h mod 100 div 10) + h mod 10 = h mod 100"
    by simp
  have "nat_of_digits [digit_char (h mod 100 div 10), digit_char (h mod 10)]
          = 10 * (h mod 100 div 10) + h mod 10"
    by (simp add: nat_of_digits_def digit_value_digit_char[OF d1] digit_value_digit_char[OF d2])
  with split have "nat_of_digits [digit_char (h mod 100 div 10), digit_char (h mod 10)] = h mod 100"
    by simp
  then have "nat_of_digits (show_nat (h div 100)) * 100
            + nat_of_digits [digit_char (h mod 100 div 10), digit_char (h mod 10)] = h"
    by (simp add: nat_of_digits_show_nat)
  then show ?thesis
    using show_nat_digits[of "h div 100"] digit_char_is_digit[OF d1] digit_char_is_digit[OF d2]
    by (intro exI[of _ h]) (simp add: fmt_2f_def h_def[symmetric] Let_def)
qed

subsection \<open>Facts about the scan\<close>

lemma scan_names_append:
  "scan_names d ents files =
     files @ concat (map (\<lambda>e. case getsize (snd e) of
                                 Some sz \<Rightarrow> [(sz, path_join d (fst e))] | None \<Rightarrow> []) ents)"
  by (induction ents arbitrary: files) (auto split: option.splits)

lemma scan_walk_append:
  "scan_walk ts files =
     files @ concat (map (\<lambda>t. concat (map (\<lambda>e. case getsize (snd e) of
                  Some sz \<Rightarrow> [(sz, path_join (fst t) (fst e))] | None \<Rightarrow> []) (snd (snd t)))) ts)"
  by (induction ts arbitrary: files) (auto simp: scan_names_append)

lemma sort_rev_eq: "sort_key (\<lambda>x. x) (rev xs) = sort_key (\<lambda>x. x) xs"
  by (rule properties_for_sort) simp_all

lemma sorted_reverse_eq: "sorted_reverse xs = rev (sort_key (\<lambda>x. x) xs)"
  by (simp add: sorted_reverse_def sort_rev_eq)

lemma mset_sorted_reverse: "mset (sorted_reverse xs) = mset xs"
  by (simp add: sorted_reverse_eq)

lemma length_sorted_reverse: "length (sorted_reverse xs) = length xs"
  by (simp add: sorted_reverse_eq)

lemma descending_sorted_reverse: "sorted_wrt (\<lambda>a b. b \<le> a) (sorted_reverse xs)"
  by (simp add: sorted_reverse_eq sorted_wrt_rev)

lemma strict_sorted_reverse:
  "distinct xs \<Longrightarrow> sorted_wrt (\<lambda>a b. b < a) (sorted_reverse xs)"
proof -
  assume "distinct xs"
  then have "sorted_wrt (<) (sort_key (\<lambda>x. x) xs)"
    by (simp add: strict_sorted_iff)
  then show ?thesis
    by (simp add: sorted_reverse_eq sorted_wrt_rev)
qed

lemma sorted_reverse_perm: "mset xs = mset ys \<Longrightarrow> sorted_reverse xs = sorted_reverse ys"
proof -
  assume "mset xs = mset ys"
  then have "sort_key (\<lambda>x. x) xs = sort_key (\<lambda>x. x) ys"
    by (intro properties_for_sort) simp_all
  then show ?thesis by (simp add: sorted_reverse_eq)
qed

lemma fst_descending:
  fixes xs :: "('a::linorder \<times> 'b::linorder) list"
  shows "sorted_wrt (\<lambda>a b. b \<le> a) xs \<Longrightarrow> sorted_wrt (\<lambda>a b. fst b \<le> fst a) xs"
  by (erule sorted_wrt_mono_rel[rotated]) (auto simp: less_eq_prod_def)

lemma slice_to_nonneg: "0 \<le> n \<Longrightarrow> slice_to xs n = take (nat n) xs"
  by (simp add: slice_to_def)

lemma slice_to_neg: "n < 0 \<Longrightarrow> slice_to xs n = take (nat (int (length xs) + n)) xs"
  by (simp add: slice_to_def)

lemma largest_files_eq:
  "largest_files rp cnt fs =
     (Header (show_int cnt @ '' LARGEST FILES in '' @ rp)
        # map file_line (selected_files rp cnt fs), None)"
  by (simp add: largest_files_def largest_files_body_def)

lemma in_measured:
  "x \<in> set (case r of Some sz \<Rightarrow> [(sz, q)] | None \<Rightarrow> []) \<longleftrightarrow> r = Some (fst x) \<and> snd x = q"
  by (cases r) auto

text \<open>Unfolding the scanner on a concrete tree.\<close>

lemmas scan_eval =
  largest_files_def largest_files_body_def selected_files_def collect_def walk_root_def
  path_join_def sorted_reverse_def slice_to_def file_line_def format_size_def fmt_2f_def
  to_double_def round_half_even_def show_int_def digit_char_def Let_def
  show_nat.simps bit_length.simps

subsection \<open>Facts about the ranking\<close>

lemma py_lt_numeric:
  "a \<noteq> PyNone \<Longrightarrow> b \<noteq> PyNone \<Longrightarrow> py_lt a b = Inr (num_of a < num_of b)"
  by (cases a; cases b) (simp_all add: num_of_def)

lemma py_lt_None: "py_lt a PyNone = Inl TypeError" "py_lt PyNone b = Inl TypeError"
  by (cases a; simp) simp

lemma py_lt_error: "py_lt a b = Inl e \<Longrightarrow> e = TypeError"
  by (cases a; cases b) simp_all

lemma py_insort_numeric:
  assumes "key x \<noteq> PyNone" and "\<forall>y \<in> set ys. key y \<noteq> PyNone"
  shows "py_insort key x ys = Inr (insort_key (\<lambda>p. num_of (key p)) x ys)"
  using assms by (induction ys) (auto simp: py_lt_numeric)

lemma py_sort_numeric:
  assumes "\<forall>x \<in> set xs. key x \<noteq> PyNone"
  shows "py_sort key xs = Inr (sort_key (\<lambda>p. num_of (key p)) xs)"
  using assms by (induction xs) (simp_all add: py_insort_numeric)

lemma py_insort_error: "py_insort key x ys = Inl e \<Longrightarrow> e = TypeError"
  by (induction ys) (auto split: sum.splits bool.splits dest: py_lt_error)

lemma py_sort_error: "py_sort key xs = Inl e \<Longrightarrow> e = TypeError"
  by (induction xs arbitrary: e) (auto split: sum.splits dest: py_insort_error)

lemma py_insort_mset: "py_insort key x ys = Inr zs \<Longrightarrow> mset zs = add_mset x (mset ys)"
  by (induction ys arbitrary: zs) (auto split: sum.splits bool.splits)

lemma py_sort_mset: "py_sort key xs = Inr ys \<Longrightarrow> mset ys = mset xs"
  by (induction xs arbitrary: ys) (auto split: sum.splits dest: py_insort_mset)

lemma py_insort_head_None:
  "key x = PyNone \<Longrightarrow> ys \<noteq> [] \<Longrightarrow> py_insort key x ys = Inl TypeError"
  by (cases ys) (simp_all add: py_lt_None)

lemma py_insort_single_None:
  "key y = PyNone \<Longrightarrow> py_insort key x [y] = Inl TypeError"
  by (simp add: py_lt_None)

text \<open>The sort returns exactly when it has fewer than two elements or every key is a number.\<close>

lemma py_sort_returns_iff:
  "(\<exists>ys. py_sort key xs = Inr ys) \<longleftrightarrow> length xs \<le> 1 \<or> (\<forall>x \<in> set xs. key x \<noteq> PyNone)"
proof
  assume "length xs \<le> 1 \<or> (\<forall>x \<in> set xs. key x \<noteq> PyNone)"
  then show "\<exists>ys. py_sort key xs = Inr ys"
  proof
    assume "length xs \<le> 1"
    then show ?thesis
      by (cases xs) auto
  next
    assume "\<forall>x \<in> set xs. key x \<noteq> PyNone"
    then show ?thesis by (simp add: py_sort_numeric)
  qed
next
  show "\<exists>ys. py_sort key xs = Inr ys \<Longrightarrow> length xs \<le> 1 \<or> (\<forall>x \<in> set xs. key x \<noteq> PyNone)"
  proof (induction xs)
    case Nil
    then show ?case by simp
  next
    case (Cons x xs)
    then obtain zs where zs: "py_sort key (x # xs) = Inr zs" by blast
    then obtain ys where ys: "py_sort key xs = Inr ys" and ins: "py_insort key x ys = Inr zs"
      by (auto split: sum.splits)
    have perm: "mset ys = mset xs" using ys by (rule py_sort_mset)
    from Cons.IH ys have tail: "length xs \<le> 1 \<or> (\<forall>x \<in> set xs. key x \<noteq> PyNone)" by blast
    show ?case
    proof (cases xs)
      case Nil
      then show ?thesis by simp
    next
      case (Cons y rest)
      then have ne: "ys \<noteq> []" using perm by auto
      have kx: "key x \<noteq> PyNone"
        using ins ne py_insort_head_None[of key x ys] by auto
      have "\<forall>x \<in> set xs. key x \<noteq> PyNone"
      proof (cases rest)
        case Nil
        with Cons ys have "ys = [y]" by simp
        with ins py_insort_single_None[of key y x] have "key y \<noteq> PyNone" by auto
        with Cons Nil show ?thesis by simp
      next
        case (Cons z rest')
        with \<open>xs = y # rest\<close> tail show ?thesis by simp
      qed
      with kx show ?thesis by simp
    qed
  qed
qed

lemma py_sort_fails_iff:
  "py_sort key xs = Inl TypeError \<longleftrightarrow> 2 \<le> length xs \<and> (\<exists>x \<in> set xs. key x = PyNone)"
proof -
  have "py_sort key xs = Inl TypeError \<longleftrightarrow> \<not> (\<exists>ys. py_sort key xs = Inr ys)"
    by (cases "py_sort key xs") (auto dest: py_sort_error)
  then show ?thesis
    unfolding py_sort_returns_iff by auto
qed

lemma py_sorted_reverse_numeric:
  assumes "\<forall>x \<in> set xs. key x \<noteq> PyNone"
  shows "py_sorted_reverse key xs = Inr (rev (sort_key (\<lambda>p. num_of (key p)) (rev xs)))"
  using assms by (simp add: py_sorted_reverse_def py_sort_numeric)

lemma py_sorted_reverse_fails_iff:
  "py_sorted_reverse key xs = Inl TypeError \<longleftrightarrow> 2 \<le> length xs \<and> (\<exists>x \<in> set xs. key x = PyNone)"
proof -
  have "py_sorted_reverse key xs = Inl TypeError \<longleftrightarrow> py_sort key (rev xs) = Inl TypeError"
    by (simp add: py_sorted_reverse_def split: sum.splits)
  then show ?thesis
    by (simp add: py_sort_fails_iff)
qed

lemma py_sorted_reverse_error: "py_sorted_reverse key xs = Inl e \<Longrightarrow> e = TypeError"
  by (auto simp: py_sorted_reverse_def split: sum.splits dest: py_sort_error)

text \<open>The stable descending sort of a list with total keys.\<close>

lemma stable_descending:
  fixes f :: "'a \<Rightarrow> 'k::linorder"
  defines "r \<equiv> \<lambda>xs. rev (sort_key f (rev xs))"
  shows "mset (r xs) = mset xs"
    and "sorted_wrt (\<lambda>a b. f b \<le> f a) (r xs)"
    and "filter (\<lambda>x. f x = k) (r xs) = filter (\<lambda>x. f x = k) xs"
proof -
  show "mset (r xs) = mset xs" by (simp add: r_def)
  have "sorted (map f (sort_key f (rev xs)))" by simp
  then have "sorted_wrt (\<lambda>a b. f a \<le> f b) (sort_key f (rev xs))"
    by (simp add: sorted_map)
  then show "sorted_wrt (\<lambda>a b. f b \<le> f a) (r xs)"
    by (simp add: r_def sorted_wrt_rev)
  have "filter (\<lambda>x. f x = k) (sort_key f (rev xs)) = filter (\<lambda>x. f x = k) (rev xs)"
    by (rule sort_key_stable)
  then show "filter (\<lambda>x. f x = k) (r xs) = filter (\<lambda>x. f x = k) xs"
    by (simp add: r_def rev_filter[symmetric])
qed

text \<open>
  A list sorted by \<open>R\<close> in which the elements of every key are in the order \<open>S\<close> is
  sorted by \<open>R\<close>, with \<open>S\<close> between elements of one key.
\<close>

lemma sorted_wrt_tie_break:
  assumes "sorted_wrt R xs" and "\<And>k. sorted_wrt S (filter (\<lambda>x. f x = k) xs)"
  shows "sorted_wrt (\<lambda>a b. R a b \<and> (f a = f b \<longrightarrow> S a b)) xs"
  using assms
proof (induction xs)
  case Nil
  then show ?case by simp
next
  case (Cons x xs)
  have tail: "sorted_wrt S (filter (\<lambda>y. f y = k) xs)" for k
    using Cons.prems(2)[of k] by (cases "f x = k") simp_all
  have "S x y" if "y \<in> set xs" "f x = f y" for y
    using Cons.prems(2)[of "f x"] that by auto
  with Cons tail show ?case by auto
qed
lemma usage_key_simps:
  "cpu_percent p = None \<Longrightarrow> usage_key p = PyNum 0"
  "cpu_percent p = Some v \<Longrightarrow> usage_key p = v"
  by (simp_all add: usage_key_def)

lemma usage_key_None_iff: "usage_key p = PyNone \<longleftrightarrow> cpu_percent p = Some PyNone"
  by (cases "cpu_percent p") (simp_all add: usage_key_def)

lemma print_procs_present:
  "\<forall>p \<in> set ps. cpu_percent p \<noteq> None \<Longrightarrow>
     print_procs ps = (map (\<lambda>p. ProcLine (pid p) (name p) (usage_key p)) ps, None)"
  by (induction ps) (auto simp: usage_key_def)

lemma rank_numeric:
  assumes "\<forall>p \<in> set procs. cpu_percent p \<noteq> Some PyNone"
  shows "rank procs = Inr (rev (sort_key usage (rev procs)))"
proof -
  have "\<forall>p \<in> set procs. usage_key p \<noteq> PyNone"
    using assms by (simp add: usage_key_None_iff)
  then have "rank procs = Inr (rev (sort_key (\<lambda>p. num_of (usage_key p)) (rev procs)))"
    unfolding rank_def by (rule py_sorted_reverse_numeric)
  moreover have "(\<lambda>p. num_of (usage_key p)) = usage"
    by (simp add: usage_def fun_eq_iff)
  ultimately show ?thesis by simp
qed

text \<open>Unfolding the ranker on a concrete snapshot.\<close>

lemmas rank_eval =
  top_cpu_processes_def rank_def py_sorted_reverse_def usage_key_def slice_to_def
  show_int_def digit_char_def show_nat.simps

subsection \<open>The heap as a priority queue\<close>

lemma heap_mset_merge: "heap_mset (heap_merge u v) = heap_mset u + heap_mset v"
  by (induction u v rule: heap_merge.induct) simp_all

lemma heap_ok_merge: "heap_ok u \<Longrightarrow> heap_ok v \<Longrightarrow> heap_ok (heap_merge u v)"
proof (induction u v rule: heap_merge.induct)
  case (1 h)
  then show ?case by simp
next
  case (2 l a r)
  then show ?case by simp
next
  case (3 l1 a1 r1 l2 a2 r2)
  from "3.prems" have b1: "\<forall>x \<in># heap_mset l1 + heap_mset r1. a1 \<le> x"
    and b2: "\<forall>x \<in># heap_mset l2 + heap_mset r2. a2 \<le> x"
    and ok: "heap_ok l1" "heap_ok r1" "heap_ok l2" "heap_ok r2"
    by simp_all
  show ?case
  proof (cases "a1 \<le> a2")
    case True
    with 3 have sub: "heap_ok (heap_merge r1 (Hp l2 a2 r2))" by simp
    have "a1 \<le> x" if "x \<in># heap_mset l2 + heap_mset r2" for x
      using b2 that True by (meson order_trans)
    with b1 True have "\<forall>x \<in># heap_mset l1 + heap_mset (heap_merge r1 (Hp l2 a2 r2)). a1 \<le> x"
      by (auto simp: heap_mset_merge)
    with True sub ok show ?thesis by simp
  next
    case False
    with 3 have sub: "heap_ok (heap_merge (Hp l1 a1 r1) r2)" by simp
    from False have le: "a2 \<le> a1" by simp
    have "a2 \<le> x" if "x \<in># heap_mset l1 + heap_mset r1" for x
      using b1 that le by (meson order_trans)
    with b2 le have "\<forall>x \<in># heap_mset l2 + heap_mset (heap_merge (Hp l1 a1 r1) r2). a2 \<le> x"
      by (auto simp: heap_mset_merge)
    with False sub ok show ?thesis by simp
  qed
qed

lemma heap_size_mset: "heap_size h = size (heap_mset h)"
  by (induction h) simp_all

lemma heap_mset_push: "heap_mset (heap_push x h) = add_mset x (heap_mset h)"
  by (simp add: heap_push_def heap_mset_merge)

lemma heap_ok_push: "heap_ok h \<Longrightarrow> heap_ok (heap_push x h)"
  by (simp add: heap_push_def heap_ok_merge)

lemma mset_heap_drain: "mset (heap_drain h) = heap_mset h"
  by (induction h rule: heap_drain.induct) (simp_all add: heap_mset_merge)

lemma sorted_heap_drain: "heap_ok h \<Longrightarrow> sorted (heap_drain h)"
proof (induction h rule: heap_drain.induct)
  case 1
  then show ?case by simp
next
  case (2 l a r)
  then have "sorted (heap_drain (heap_merge l r))"
    by (simp add: heap_ok_merge)
  moreover have "\<forall>x \<in> set (heap_drain (heap_merge l r)). a \<le> x"
    using "2.prems" mset_heap_drain[of "heap_merge l r"]
    by (metis heap_mset_merge heap_ok.simps(2) set_mset_mset)
  ultimately show ?case by simp
qed

subsection \<open>The K greatest elements of a multiset\<close>

lemma is_topk_empty: "is_topk K {#} {#}"
  by (simp add: is_topk_def)

lemma is_topk_take:
  assumes "sorted_wrt (\<lambda>a b. b \<le> a) D" and "is_topk K T (mset D)"
  shows "T = mset (take K D)"
  using assms
proof (induction D arbitrary: K T)
  case Nil
  then show ?case by (simp add: is_topk_def)
next
  case (Cons h D)
  show ?case
  proof (cases K)
    case 0
    with Cons.prems(2) show ?thesis by (simp add: is_topk_def)
  next
    case (Suc k)
    from Cons.prems(2) have sub: "T \<subseteq># add_mset h (mset D)"
      and sz: "size T = min K (Suc (length D))"
      and dom: "\<forall>a \<in># T. \<forall>b \<in># add_mset h (mset D) - T. b \<le> a"
      by (simp_all add: is_topk_def)
    from sz Suc have "T \<noteq> {#}" by auto
    then obtain a where a: "a \<in># T" by auto
    have hT: "h \<in># T"
    proof (rule ccontr)
      assume nh: "h \<notin># T"
      then have "h \<in># add_mset h (mset D) - T"
        by (simp add: in_diff_count not_in_iff)
      with dom a have "h \<le> a" by blast
      moreover from a sub have "a \<in># add_mset h (mset D)"
        by (meson mset_subset_eqD)
      with nh a have "a \<in> set D" by auto
      with Cons.prems(1) have "a \<le> h" by simp
      ultimately have "a = h" by simp
      with a nh show False by simp
    qed
    define T' where "T' = T - {#h#}"
    have T: "T = add_mset h T'"
      using hT by (simp add: T'_def)
    have sub': "T' \<subseteq># mset D"
      using sub unfolding T by simp
    have sz': "size T' = min k (size (mset D))"
      using sz Suc unfolding T by simp
    have dom': "\<forall>a \<in># T'. \<forall>b \<in># mset D - T'. b \<le> a"
      using dom unfolding T by simp
    have "is_topk k T' (mset D)"
      using sub' sz' dom' by (simp add: is_topk_def)
    with Cons.IH[of k T'] Cons.prems(1) have "T' = mset (take k D)" by simp
    with T Suc show ?thesis by simp
  qed
qed

lemma subset_same_size:
  assumes "T \<subseteq># M" and "size T = size M"
  shows "T = M"
  using assms by (metis mset_subset_size subset_mset.less_le less_irrefl)

lemma is_topk_room:
  assumes "is_topk K T M" and "size T < K"
  shows "is_topk K (add_mset x T) (add_mset x M)"
proof -
  from assms have "size T = size M" by (auto simp: is_topk_def)
  with assms(1) have "T = M" by (auto simp: is_topk_def intro: subset_same_size)
  with assms(2) show ?thesis by (simp add: is_topk_def)
qed

lemma is_topk_zero:
  assumes "is_topk K {#} M" and "\<not> 0 < K"
  shows "is_topk K {#} (add_mset x M)"
  using assms by (simp add: is_topk_def)

lemma is_topk_replace:
  assumes "is_topk K T M" and "\<not> size T < K" and "m \<in># T" and "\<forall>a \<in># T. m \<le> a" and "m < x"
  shows "is_topk K (add_mset x (T - {#m#})) (add_mset x M)"
proof -
  from assms(1) have sub: "T \<subseteq># M" and sz: "size T = min K (size M)"
    and dom: "\<forall>a \<in># T. \<forall>b \<in># M - T. b \<le> a"
    by (simp_all add: is_topk_def)
  from assms(3) obtain T0 where T: "T = add_mset m T0"
    by (meson multi_member_split)
  from sub obtain R where M: "M = T + R"
    by (meson mset_subset_eq_exists_conv)
  have less: "\<forall>b \<in># add_mset m R. b \<le> m"
    using dom assms(3) unfolding M by simp
  have "add_mset x T0 \<subseteq># add_mset x (add_mset m T0 + R)"
    by simp
  moreover have "size (add_mset x T0) = min K (size (add_mset x (add_mset m T0 + R)))"
    using sz assms(2) unfolding M T by simp
  moreover have "\<forall>a \<in># add_mset x T0. \<forall>b \<in># add_mset x (add_mset m T0 + R) - add_mset x T0. b \<le> a"
  proof (intro ballI)
    fix a b
    assume a: "a \<in># add_mset x T0"
      and b: "b \<in># add_mset x (add_mset m T0 + R) - add_mset x T0"
    from b have "b \<in># add_mset m R" by simp
    with less have "b \<le> m" by blast
    moreover from a have "m \<le> a"
      using assms(4,5) unfolding T by auto
    ultimately show "b \<le> a" by simp
  qed
  ultimately show ?thesis
    unfolding M T by (simp add: is_topk_def)
qed

lemma is_topk_keep:
  assumes "is_topk K T M" and "\<not> size T < K" and "m \<in># T" and "\<forall>a \<in># T. m \<le> a" and "\<not> m < x"
  shows "is_topk K T (add_mset x M)"
proof -
  from assms(1) have sub: "T \<subseteq># M" and sz: "size T = min K (size M)"
    and dom: "\<forall>a \<in># T. \<forall>b \<in># M - T. b \<le> a"
    by (simp_all add: is_topk_def)
  from sub obtain R where M: "M = T + R"
    by (meson mset_subset_eq_exists_conv)
  have "T \<subseteq># add_mset x (T + R)"
    by (simp add: subset_mset.add_increasing2)
  moreover have "size T = min K (size (add_mset x (T + R)))"
    using sz assms(2) unfolding M by simp
  moreover have "\<forall>a \<in># T. \<forall>b \<in># add_mset x (T + R) - T. b \<le> a"
  proof (intro ballI)
    fix a b
    assume a: "a \<in># T" and b: "b \<in># add_mset x (T + R) - T"
    from b have "b = x \<or> b \<in># R" by simp
    then show "b \<le> a"
    proof
      assume "b = x"
      with assms(4,5) a show ?thesis by force
    next
      assume "b \<in># R"
      with dom a show ?thesis unfolding M by simp
    qed
  qed
  ultimately show ?thesis
    unfolding M by (simp add: is_topk_def)
qed

subsection \<open>The bounded heap holds the K greatest elements seen\<close>

lemma topk_offer_invariant:
  assumes "heap_ok h" and "is_topk K (heap_mset h) M"
  shows "heap_ok (topk_offer K x h) \<and> is_topk K (heap_mset (topk_offer K x h)) (add_mset x M)"
proof (cases "heap_size h < K")
  case True
  then have "topk_offer K x h = heap_push x h"
    by (simp add: topk_offer_def)
  moreover have "is_topk K (add_mset x (heap_mset h)) (add_mset x M)"
    using assms(2) True by (intro is_topk_room) (simp_all add: heap_size_mset)
  ultimately show ?thesis
    using assms(1) by (simp add: heap_ok_push heap_mset_push)
next
  case full: False
  show ?thesis
  proof (cases h)
    case Empty
    with full have "topk_offer K x h = Empty" and "\<not> 0 < K"
      by (simp_all add: topk_offer_def)
    with assms(2) Empty show ?thesis
      by (simp add: is_topk_zero)
  next
    case (Hp l m r)
    have m_in: "m \<in># heap_mset h" and m_least: "\<forall>a \<in># heap_mset h. m \<le> a"
      using assms(1) Hp by auto
    have not_room: "\<not> size (heap_mset h) < K"
      using full by (simp add: heap_size_mset)
    show ?thesis
    proof (cases "m < x")
      case True
      with full Hp have step: "topk_offer K x h = heap_push x (heap_merge l r)"
        by (simp add: topk_offer_def)
      have "heap_mset h - {#m#} = heap_mset (heap_merge l r)"
        using Hp by (simp add: heap_mset_merge)
      moreover have "is_topk K (add_mset x (heap_mset h - {#m#})) (add_mset x M)"
        using assms(2) not_room m_in m_least True by (rule is_topk_replace)
      moreover have "heap_ok (heap_merge l r)"
        using assms(1) Hp by (simp add: heap_ok_merge)
      ultimately show ?thesis
        unfolding step by (simp add: heap_ok_push heap_mset_push)
    next
      case False
      with full Hp have "topk_offer K x h = h"
        by (simp add: topk_offer_def)
      moreover have "is_topk K (heap_mset h) (add_mset x M)"
        using assms(2) not_room m_in m_least False by (rule is_topk_keep)
      ultimately show ?thesis
        using assms(1) by simp
    qed
  qed
qed

lemma topk_fold_invariant:
  assumes "heap_ok h" and "is_topk K (heap_mset h) M"
  shows "heap_ok (fold (topk_offer K) xs h)
       \<and> is_topk K (heap_mset (fold (topk_offer K) xs h)) (M + mset xs)"
  using assms
proof (induction xs arbitrary: h M)
  case Nil
  then show ?case by simp
next
  case (Cons x xs)
  from topk_offer_invariant[OF Cons.prems, of x]
  have "heap_ok (topk_offer K x h)"
    and "is_topk K (heap_mset (topk_offer K x h)) (add_mset x M)"
    by simp_all
  from Cons.IH[OF this] show ?case by simp
qed

lemma descending_unique:
  fixes xs ys :: "'a::linorder list"
  assumes "sorted_wrt (\<lambda>a b. b \<le> a) xs" and "sorted_wrt (\<lambda>a b. b \<le> a) ys" and "mset xs = mset ys"
  shows "xs = ys"
proof -
  have "sorted (rev xs)" and "sorted (rev ys)"
    using assms(1,2) by (simp_all add: sorted_wrt_rev)
  moreover have "mset (rev xs) = mset (rev ys)"
    using assms(3) by simp
  ultimately have "rev xs = rev ys"
    by (metis properties_for_sort)
  then show ?thesis by simp
qed

lemma spec_topk_heap_eq: "spec_topk_heap K xs = take K (sorted_reverse xs)"
proof -
  define h where "h = fold (topk_offer K) xs Empty"
  have inv: "heap_ok h \<and> is_topk K (heap_mset h) ({#} + mset xs)"
    unfolding h_def by (rule topk_fold_invariant) (simp_all add: is_topk_empty)
  then have "is_topk K (heap_mset h) (mset (sorted_reverse xs))"
    by (simp add: mset_sorted_reverse)
  with descending_sorted_reverse[of xs] have held: "heap_mset h = mset (take K (sorted_reverse xs))"
    by (rule is_topk_take)
  have "sorted_wrt (\<lambda>a b. b \<le> a) (rev (heap_drain h))"
    using inv by (simp add: sorted_wrt_rev sorted_heap_drain)
  moreover have "sorted_wrt (\<lambda>a b. b \<le> a) (take K (sorted_reverse xs))"
    by (intro sorted_wrt_take descending_sorted_reverse)
  moreover have "mset (rev (heap_drain h)) = mset (take K (sorted_reverse xs))"
    using held by (simp add: mset_heap_drain)
  ultimately have "rev (heap_drain h) = take K (sorted_reverse xs)"
    by (rule descending_unique)
  then show ?thesis
    by (simp add: spec_topk_heap_def h_def)
qed

lemma spec_topk_heap_example:
  "spec_topk_heap 2 [(7::nat, ''a''), (9, ''b''), (3, ''c''), (8, ''d'')] = [(9, ''b''), (8, ''d'')]"
  by (simp add: spec_topk_heap_def topk_offer_def heap_push_def)

section \<open>Properties of the file scanner\<close>

text \<open>
  C1. When the root path cannot be opened (it does not exist, or it cannot be listed,
  or it is not a directory), the scanner is expected to give one error result. What the
  code does there: \<^verbatim>\<open>os.walk\<close> passes over the failed listing, the loop body never
  runs, and the function prints its header and nothing else: no entry and no error
  line, and it returns normally, so that a section after it runs.
\<close>

theorem C1_missing_root_prints_header_only:
  "largest_files rp K None = ([Header (show_int K @ '' LARGEST FILES in '' @ rp)], None)
   \<and> largest_files rp K (Some (Dir None)) = ([Header (show_int K @ '' LARGEST FILES in '' @ rp)], None)
   \<and> largest_files rp K (Some (File r)) = ([Header (show_int K @ '' LARGEST FILES in '' @ rp)], None)
   \<and> run_sections [largest_files rp K None, nxt]
         = (Header (show_int K @ '' LARGEST FILES in '' @ rp) # fst nxt, snd nxt)"
proof -
  have sl: "slice_to ([] :: (nat \<times> string) list) K = []"
    by (simp add: slice_to_def)
  have a: "largest_files rp K None = ([Header (show_int K @ '' LARGEST FILES in '' @ rp)], None)"
    by (simp add: largest_files_eq selected_files_def collect_def walk_root_def sorted_reverse_def sl)
  have b: "largest_files rp K (Some (Dir None)) = ([Header (show_int K @ '' LARGEST FILES in '' @ rp)], None)"
    by (simp add: largest_files_eq selected_files_def collect_def walk_root_def sorted_reverse_def sl)
  have c: "largest_files rp K (Some (File r)) = ([Header (show_int K @ '' LARGEST FILES in '' @ rp)], None)"
    by (simp add: largest_files_eq selected_files_def collect_def walk_root_def sorted_reverse_def sl)
  have d: "run_sections [largest_files rp K None, nxt]
         = (Header (show_int K @ '' LARGEST FILES in '' @ rp) # fst nxt, snd nxt)"
    unfolding a by (cases nxt; cases "snd nxt") auto
  from a b c d show ?thesis by blast
qed

text \<open>
  C2. For every root and every \<open>K \<ge> 0\<close> the scanner prints exactly
  \<open>min K (number of collected entries)\<close> entries: the first \<open>K\<close> of the collected pairs in
  descending order of \<open>(size, path)\<close>. So the sizes descend, entries of equal size are
  ordered by their paths (the deterministic tie-break), and the order is strict when no
  pair occurs twice. For \<open>K = 0\<close> the result is empty, and a \<open>K\<close> of at least the number
  of collected entries gives all of them; no error is reported in either case.
\<close>

theorem C2_scanner_min_K_sorted:
  assumes "0 \<le> K"
  shows "largest_files rp K fs =
           (Header (show_int K @ '' LARGEST FILES in '' @ rp)
              # map file_line (selected_files rp K fs), None)
       \<and> selected_files rp K fs = take (nat K) (sorted_reverse (collect rp fs))
       \<and> length (selected_files rp K fs) = min (nat K) (length (collect rp fs))
       \<and> mset (sorted_reverse (collect rp fs)) = mset (collect rp fs)
       \<and> sorted_wrt (\<lambda>a b. b \<le> a) (selected_files rp K fs)
       \<and> sorted_wrt (\<lambda>a b. fst b \<le> fst a) (selected_files rp K fs)
       \<and> (distinct (collect rp fs) \<longrightarrow> sorted_wrt (\<lambda>a b. b < a) (selected_files rp K fs))
       \<and> selected_files rp 0 fs = []
       \<and> mset (selected_files rp (int (length (collect rp fs)) + int d) fs) = mset (collect rp fs)"
proof -
  let ?files = "collect rp fs"
  have sel: "selected_files rp K fs = take (nat K) (sorted_reverse ?files)"
    using assms by (simp add: selected_files_def slice_to_nonneg)
  have desc: "sorted_wrt (\<lambda>a b. b \<le> a) (selected_files rp K fs)"
    unfolding sel by (intro sorted_wrt_take descending_sorted_reverse)
  have strict: "sorted_wrt (\<lambda>a b. b < a) (selected_files rp K fs)" if "distinct ?files"
    unfolding sel using that by (intro sorted_wrt_take strict_sorted_reverse)
  have all: "mset (selected_files rp (int (length ?files) + int d) fs) = mset ?files"
    by (simp add: selected_files_def slice_to_def length_sorted_reverse mset_sorted_reverse nat_add_distrib)
  show ?thesis
    using sel desc strict all fst_descending[OF desc]
    by (simp add: largest_files_eq length_sorted_reverse mset_sorted_reverse selected_files_def slice_to_def)
qed

theorem C2_witness:
  "(0::int) \<le> 2
   \<and> distinct (collect ''/srv'' (Some (Dir (Some
         [(''a'', File (Some 7)), (''d'', Dir (Some [(''b'', File (Some 9)), (''c'', File (Some 7))]))]))))
   \<and> selected_files ''/srv'' 2 (Some (Dir (Some
         [(''a'', File (Some 7)), (''d'', Dir (Some [(''b'', File (Some 9)), (''c'', File (Some 7))]))])))
       = [(9, ''/srv/d/b''), (7, ''/srv/d/c'')]
   \<and> sorted_wrt (\<lambda>a b. b < a) (selected_files ''/srv'' 2 (Some (Dir (Some
         [(''a'', File (Some 7)), (''d'', Dir (Some [(''b'', File (Some 9)), (''c'', File (Some 7))]))]))))"
  using C2_scanner_min_K_sorted [of 2 "''/srv''" "Some (Dir (Some
         [(''a'', File (Some 7)), (''d'', Dir (Some [(''b'', File (Some 9)), (''c'', File (Some 7))]))]))" 0]
  by (simp add: scan_eval)

text \<open>
  C5. An entry whose size cannot be read is skipped: the collected pairs are exactly
  the entries whose size read succeeds, in the order of the walk, each with the size
  that was read (so an unreadable entry is not reported, with size zero or any other);
  the entries after an unreadable one are still scanned; and the scan ends without
  an exception and without an error line.
\<close>

theorem C5_unmeasurable_entries_skipped:
  "collect rp fs =
     concat (map (\<lambda>t. concat (map (\<lambda>e. case getsize (snd e) of
                 Some sz \<Rightarrow> [(sz, path_join (fst t) (fst e))] | None \<Rightarrow> []) (snd (snd t))))
       (walk_root rp fs))
   \<and> ((sz, p) \<in> set (collect rp fs) \<longleftrightarrow>
        (\<exists>t \<in> set (walk_root rp fs). \<exists>e \<in> set (snd (snd t)).
           getsize (snd e) = Some sz \<and> p = path_join (fst t) (fst e)))
   \<and> scan_names d (before @ (n, File None) # after) files = scan_names d (before @ after) files
   \<and> snd (largest_files rp K fs) = None
   \<and> (\<forall>x. ErrorLine x \<notin> set (fst (largest_files rp K fs)))"
proof -
  have eq: "collect rp fs =
     concat (map (\<lambda>t. concat (map (\<lambda>e. case getsize (snd e) of
                 Some sz \<Rightarrow> [(sz, path_join (fst t) (fst e))] | None \<Rightarrow> []) (snd (snd t))))
       (walk_root rp fs))"
    by (simp add: collect_def scan_walk_append)
  have mem: "(sz, p) \<in> set (collect rp fs) \<longleftrightarrow>
        (\<exists>t \<in> set (walk_root rp fs). \<exists>e \<in> set (snd (snd t)).
           getsize (snd e) = Some sz \<and> p = path_join (fst t) (fst e))"
    unfolding eq by (simp add: in_measured eq_commute[of "Some sz"])
  have skip: "scan_names d (before @ (n, File None) # after) files = scan_names d (before @ after) files"
    by (simp add: scan_names_append)
  have noerr: "\<forall>x. ErrorLine x \<notin> set (fst (largest_files rp K fs))"
    by (auto simp: largest_files_eq file_line_def)
  from eq mem skip noerr show ?thesis
    by (simp add: largest_files_eq)
qed

theorem C5_witness:
  "collect ''/srv'' (Some (Dir (Some
      [(''a'', File (Some 7)), (''gone'', File None), (''c'', File (Some 0))])))
     = [(7, ''/srv/a''), (0, ''/srv/c'')]
   \<and> (\<forall>x. ErrorLine x \<notin> set (fst (largest_files ''/srv'' 3 (Some (Dir (Some
      [(''a'', File (Some 7)), (''gone'', File None), (''c'', File (Some 0))]))))))"
  using C5_unmeasurable_entries_skipped [where rp = "''/srv''" and K = 3 and fs = "Some (Dir (Some
      [(''a'', File (Some 7)), (''gone'', File None), (''c'', File (Some 0))]))"]
  by (simp add: walk_root_def path_join_def)

text \<open>
  C7. Every printed entry is \<^verbatim>\<open>{formatted_size} - {path}\<close>, where the size string is the
  size divided by \<open>2^30\<close> followed by \<^verbatim>\<open>GB\<close> exactly when the size is at least \<open>2^30\<close>
  bytes, and the size divided by \<open>2^20\<close> followed by \<^verbatim>\<open>MB\<close> otherwise. The number is
  printed as an integer part, a point and exactly two decimal digits, and it is the
  quotient rounded to the nearest hundredth (of the double that the division yields,
  which is the exact quotient for every size below \<open>2^53\<close>). For files of 500 MB, 2 GB
  and 10 MB and \<open>K = 2\<close> the scanner prints \<^verbatim>\<open>2.00 GB\<close>, then \<^verbatim>\<open>500.00 MB\<close>.
\<close>

theorem C7_size_format:
  "fst (largest_files rp K fs)
     = Header (show_int K @ '' LARGEST FILES in '' @ rp) # map file_line (selected_files rp K fs)
   \<and> file_line (sz, f) = Line (format_size sz @ '' - '' @ f)
   \<and> format_size sz
       = (if 2 ^ 30 \<le> sz then fmt_2f sz (2 ^ 30) @ '' GB'' else fmt_2f sz (2 ^ 20) @ '' MB'')
   \<and> (\<exists>h ip d1 d2.
          fmt_2f sz (2 ^ k) = ip @ ''.'' @ [d1, d2]
        \<and> ip \<noteq> [] \<and> set ip \<subseteq> set ''0123456789''
        \<and> d1 \<in> set ''0123456789'' \<and> d2 \<in> set ''0123456789''
        \<and> nat_of_digits ip * 100 + nat_of_digits [d1, d2] = h
        \<and> 2 * \<bar>int h * 2 ^ k - 100 * int (to_double sz)\<bar> \<le> 2 ^ k)
   \<and> (sz < 2 ^ 53 \<longrightarrow> to_double sz = sz)
   \<and> largest_files ''/data'' 2 (Some (Dir (Some
         [(''a'', File (Some (500 * 2 ^ 20))), (''b'', File (Some (2 * 2 ^ 30))),
          (''c'', File (Some (10 * 2 ^ 20)))])))
       = ([Header ''2 LARGEST FILES in /data'', Line ''2.00 GB - /data/b'',
           Line ''500.00 MB - /data/a''], None)"
proof -
  have fmt: "format_size sz
       = (if 2 ^ 30 \<le> sz then fmt_2f sz (2 ^ 30) @ '' GB'' else fmt_2f sz (2 ^ 20) @ '' MB'')"
    by (simp add: format_size_def)
  obtain h where h:
    "fmt_2f sz (2 ^ k) = show_nat (h div 100) @ ''.'' @ [digit_char (h mod 100 div 10), digit_char (h mod 10)]"
    "h = round_half_even (to_double sz * 100) (2 ^ k)"
    "nat_of_digits (show_nat (h div 100)) * 100
       + nat_of_digits [digit_char (h mod 100 div 10), digit_char (h mod 10)] = h"
    "set (show_nat (h div 100)) \<subseteq> set ''0123456789''"
    "digit_char (h mod 100 div 10) \<in> set ''0123456789''"
    "digit_char (h mod 10) \<in> set ''0123456789''"
    using fmt_2f_shape[of sz "2 ^ k"] by blast
  have near: "2 * \<bar>int h * 2 ^ k - 100 * int (to_double sz)\<bar> \<le> 2 ^ k"
    using round_half_even_nearest[of "2 ^ k" "to_double sz * 100"] h(2)
    by (simp add: mult.commute)
  have shape: "\<exists>h ip d1 d2.
          fmt_2f sz (2 ^ k) = ip @ ''.'' @ [d1, d2]
        \<and> ip \<noteq> [] \<and> set ip \<subseteq> set ''0123456789''
        \<and> d1 \<in> set ''0123456789'' \<and> d2 \<in> set ''0123456789''
        \<and> nat_of_digits ip * 100 + nat_of_digits [d1, d2] = h
        \<and> 2 * \<bar>int h * 2 ^ k - 100 * int (to_double sz)\<bar> \<le> 2 ^ k"
    using h(1,3,4,5,6) near show_nat_nonempty[of "h div 100"] by blast
  have scenario: "largest_files ''/data'' 2 (Some (Dir (Some
         [(''a'', File (Some (500 * 2 ^ 20))), (''b'', File (Some (2 * 2 ^ 30))),
          (''c'', File (Some (10 * 2 ^ 20)))])))
       = ([Header ''2 LARGEST FILES in /data'', Line ''2.00 GB - /data/b'',
           Line ''500.00 MB - /data/a''], None)"
    by (simp add: scan_eval)
  have exact: "sz < 2 ^ 53 \<longrightarrow> to_double sz = sz"
    by (simp add: to_double_exact)
  have head: "fst (largest_files rp K fs)
     = Header (show_int K @ '' LARGEST FILES in '' @ rp) # map file_line (selected_files rp K fs)"
    by (simp add: largest_files_eq)
  have line: "file_line (sz, f) = Line (format_size sz @ '' - '' @ f)"
    by (simp add: file_line_def)
  from head line fmt shape exact scenario show ?thesis
    by blast
qed

theorem C7_witness:
  "(1610612736::nat) < 2 ^ 53
   \<and> to_double 1610612736 = 1610612736
   \<and> file_line (1610612736, ''/srv/x'') = Line ''1.50 GB - /srv/x''
   \<and> file_line (1073741823, ''/srv/y'') = Line ''1024.00 MB - /srv/y''
   \<and> file_line (131072, ''/srv/z'') = Line ''0.12 MB - /srv/z''"
  using C7_size_format [where sz = 1610612736 and k = 30 and f = "''/srv/x''"]
  by (simp add: scan_eval)

text \<open>
  C8. The selection of the code, the sort of the full buffer followed by the slice,
  depends on the collected pairs only as a multiset: over every rearrangement of the
  pairs the scanner collected it gives the scanner's own selection. For \<open>K \<ge> 0\<close> the
  bounded heap of size \<open>K\<close> over any such rearrangement gives that selection too.
\<close>

theorem C8_order_independent_and_heap_equal:
  assumes "mset ys = mset (collect rp fs)"
  shows "slice_to (sorted_reverse ys) K = selected_files rp K fs
       \<and> (0 \<le> K \<longrightarrow> spec_topk_heap (nat K) ys = selected_files rp K fs)"
proof -
  have same: "sorted_reverse ys = sorted_reverse (collect rp fs)"
    using assms by (rule sorted_reverse_perm)
  then have first: "slice_to (sorted_reverse ys) K = selected_files rp K fs"
    by (simp add: selected_files_def)
  have "spec_topk_heap (nat K) ys = selected_files rp K fs" if "0 \<le> K"
    using that same by (simp add: spec_topk_heap_eq selected_files_def slice_to_nonneg)
  with first show ?thesis by blast
qed

theorem C8_witness:
  "mset [(7, ''/srv/a''), (9, ''/srv/d/b''), (7, ''/srv/d/c'')]
     = mset (collect ''/srv'' (Some (Dir (Some
         [(''d'', Dir (Some [(''c'', File (Some 7)), (''b'', File (Some 9))])), (''a'', File (Some 7))]))))
   \<and> (0::int) \<le> 2
   \<and> spec_topk_heap 2 [(7::nat, ''/srv/a''), (9, ''/srv/d/b''), (7, ''/srv/d/c'')]
       = [(9, ''/srv/d/b''), (7, ''/srv/d/c'')]
   \<and> selected_files ''/srv'' 2 (Some (Dir (Some
         [(''d'', Dir (Some [(''c'', File (Some 7)), (''b'', File (Some 9))])), (''a'', File (Some 7))])))
       = [(9, ''/srv/d/b''), (7, ''/srv/d/c'')]"
  using C8_order_independent_and_heap_equal [of "[(7, ''/srv/a''), (9, ''/srv/d/b''), (7, ''/srv/d/c'')]"
      "''/srv''" "Some (Dir (Some
         [(''d'', Dir (Some [(''c'', File (Some 7)), (''b'', File (Some 9))])), (''a'', File (Some 7))]))" 2]
  by (simp add: scan_eval)

text \<open>
  C10. For a negative count \<open>K\<close> and \<open>L\<close> collected entries the scanner does not fail:
  it prints the first \<open>L + K\<close> entries of the descending order when \<open>L > \<bar>K\<bar>\<close>, that is
  all but the \<open>\<bar>K\<bar>\<close> smallest, and no entry when \<open>L \<le> \<bar>K\<bar>\<close>.
\<close>

theorem C10_negative_count:
  assumes "K < 0"
  shows "largest_files rp K fs =
           (Header (show_int K @ '' LARGEST FILES in '' @ rp)
              # map file_line (selected_files rp K fs), None)
       \<and> selected_files rp K fs
           = take (nat (int (length (collect rp fs)) + K)) (sorted_reverse (collect rp fs))
       \<and> length (selected_files rp K fs) = nat (int (length (collect rp fs)) + K)
       \<and> (selected_files rp K fs \<noteq> [] \<longleftrightarrow> - K < int (length (collect rp fs)))
       \<and> selected_files rp K fs @ drop (nat (int (length (collect rp fs)) + K)) (sorted_reverse (collect rp fs))
           = sorted_reverse (collect rp fs)
       \<and> length (drop (nat (int (length (collect rp fs)) + K)) (sorted_reverse (collect rp fs)))
           = min (nat (- K)) (length (collect rp fs))
       \<and> (\<forall>x \<in> set (selected_files rp K fs).
            \<forall>y \<in> set (drop (nat (int (length (collect rp fs)) + K)) (sorted_reverse (collect rp fs))).
              y \<le> x)"
proof -
  let ?files = "collect rp fs"
  let ?m = "nat (int (length ?files) + K)"
  have sel: "selected_files rp K fs = take ?m (sorted_reverse ?files)"
    using assms by (simp add: selected_files_def slice_to_neg length_sorted_reverse)
  have len: "length (selected_files rp K fs) = ?m"
    unfolding sel using assms by (simp add: length_sorted_reverse)
  have ne: "selected_files rp K fs \<noteq> [] \<longleftrightarrow> - K < int (length ?files)"
  proof -
    have "selected_files rp K fs \<noteq> [] \<longleftrightarrow> 0 < ?m"
      using len by (metis length_greater_0_conv)
    also have "\<dots> \<longleftrightarrow> - K < int (length ?files)"
      by linarith
    finally show ?thesis .
  qed
  have "sorted_wrt (\<lambda>a b. b \<le> a) (take ?m (sorted_reverse ?files) @ drop ?m (sorted_reverse ?files))"
    by (simp add: descending_sorted_reverse)
  then have dom: "\<forall>x \<in> set (selected_files rp K fs). \<forall>y \<in> set (drop ?m (sorted_reverse ?files)). y \<le> x"
    unfolding sel sorted_wrt_append by blast
  have rest: "length (drop ?m (sorted_reverse ?files)) = min (nat (- K)) (length ?files)"
    using assms by (simp add: length_sorted_reverse)
  from sel len ne dom rest show ?thesis
    by (simp add: largest_files_eq)
qed

theorem C10_witness:
  "(-1::int) < 0
   \<and> largest_files ''/srv'' (-1) (Some (Dir (Some
        [(''a'', File (Some 7)), (''b'', File (Some 9)), (''c'', File (Some 3))])))
      = ([Header ''-1 LARGEST FILES in /srv'', Line ''0.00 MB - /srv/b'', Line ''0.00 MB - /srv/a''], None)
   \<and> selected_files ''/srv'' (-1) (Some (Dir (Some
        [(''a'', File (Some 7)), (''b'', File (Some 9)), (''c'', File (Some 3))])))
      = [(9, ''/srv/b''), (7, ''/srv/a'')]
   \<and> selected_files ''/srv'' (-1) (Some (Dir (Some
        [(''a'', File (Some 7)), (''b'', File (Some 9)), (''c'', File (Some 3))]))) \<noteq> []"
  using C10_negative_count [of "-1" "''/srv''" "Some (Dir (Some
        [(''a'', File (Some 7)), (''b'', File (Some 9)), (''c'', File (Some 3))]))"]
  by (simp add: scan_eval)

section \<open>Properties of the CPU ranker\<close>

text \<open>
  C3, as the specification has it: the ranker returns the first \<open>N\<close> entries sorted by usage descending,
  ties between equal usages broken by PID ascending, for every process list. The sort
  has the usage as its only key and is stable, so a tie keeps the order in which the
  snapshot enumerated the two processes: a list that holds PID 7 before PID 3, both at
  usage 5, is ranked 7 before 3.
\<close>

theorem C3_counterexample:
  "top_cpu_processes 2 (Inr
      [\<lparr>pid = 7, name = ''x'', cpu_percent = Some (PyNum 5)\<rparr>,
       \<lparr>pid = 3, name = ''y'', cpu_percent = Some (PyNum 5)\<rparr>])
     = ([Header ''TOP 2 CPU PROCESSES'', ProcLine 7 ''x'' (PyNum 5), ProcLine 3 ''y'' (PyNum 5)], None)
   \<and> fst (top_cpu_processes 2 (Inr
      [\<lparr>pid = 7, name = ''x'', cpu_percent = Some (PyNum 5)\<rparr>,
       \<lparr>pid = 3, name = ''y'', cpu_percent = Some (PyNum 5)\<rparr>]))
     \<noteq> [Header ''TOP 2 CPU PROCESSES'', ProcLine 3 ''y'' (PyNum 5), ProcLine 7 ''x'' (PyNum 5)]"
  by (simp add: rank_eval)

text \<open>
  C3, as the code has it: for every process list whose entries all carry a number as
  \<^verbatim>\<open>cpu_percent\<close> and every \<open>N \<ge> 0\<close>, the ranker returns the first \<open>N\<close> entries of the list
  sorted by usage descending, where entries of equal usage keep the order they have in
  the process list; that order is PID ascending whenever the list is enumerated by
  ascending PID.
\<close>

theorem C3_rank_stable_descending:
  assumes "\<forall>p \<in> set procs. \<exists>r. cpu_percent p = Some (PyNum r)" and "0 \<le> n"
  shows "\<exists>ranked.
           rank procs = Inr ranked
         \<and> top_cpu_processes n (Inr procs)
             = (Header (''TOP '' @ show_int n @ '' CPU PROCESSES'')
                  # map (\<lambda>p. ProcLine (pid p) (name p) (usage_key p)) (take (nat n) ranked), None)
         \<and> mset ranked = mset procs
         \<and> sorted_wrt (\<lambda>a b. usage b \<le> usage a) ranked
         \<and> (\<forall>k. filter (\<lambda>p. usage p = k) ranked = filter (\<lambda>p. usage p = k) procs)
         \<and> (sorted_wrt (\<lambda>a b. pid a < pid b) procs \<longrightarrow>
              sorted_wrt (\<lambda>a b. usage b < usage a \<or> (usage a = usage b \<and> pid a < pid b)) ranked)"
proof -
  define ranked where "ranked = rev (sort_key usage (rev procs))"
  have numeric: "\<forall>p \<in> set procs. cpu_percent p \<noteq> Some PyNone"
    using assms(1) by auto
  have present: "\<forall>p \<in> set procs. cpu_percent p \<noteq> None"
    using assms(1) by auto
  have rk: "rank procs = Inr ranked"
    unfolding ranked_def using numeric by (rule rank_numeric)
  have perm: "mset ranked = mset procs"
    unfolding ranked_def by (rule stable_descending(1))
  have desc: "sorted_wrt (\<lambda>a b. usage b \<le> usage a) ranked"
    unfolding ranked_def by (rule stable_descending(2))
  have stable: "filter (\<lambda>p. usage p = k) ranked = filter (\<lambda>p. usage p = k) procs" for k
    unfolding ranked_def by (rule stable_descending(3))
  have "set (take (nat n) ranked) \<subseteq> set procs"
    using perm set_take_subset[of "nat n" ranked] by (metis set_mset_mset)
  then have "\<forall>p \<in> set (take (nat n) ranked). cpu_percent p \<noteq> None"
    using present by blast
  then have "print_procs (take (nat n) ranked)
      = (map (\<lambda>p. ProcLine (pid p) (name p) (usage_key p)) (take (nat n) ranked), None)"
    by (rule print_procs_present)
  then have out: "top_cpu_processes n (Inr procs)
             = (Header (''TOP '' @ show_int n @ '' CPU PROCESSES'')
                  # map (\<lambda>p. ProcLine (pid p) (name p) (usage_key p)) (take (nat n) ranked), None)"
    using rk assms(2) by (simp add: top_cpu_processes_def slice_to_nonneg)
  have tie: "sorted_wrt (\<lambda>a b. usage b < usage a \<or> (usage a = usage b \<and> pid a < pid b)) ranked"
    if "sorted_wrt (\<lambda>a b. pid a < pid b) procs"
  proof -
    have "sorted_wrt (\<lambda>a b. pid a < pid b) (filter (\<lambda>p. usage p = k) ranked)" for k
      unfolding stable using that by (rule sorted_wrt_filter)
    with desc have "sorted_wrt (\<lambda>a b. usage b \<le> usage a \<and> (usage a = usage b \<longrightarrow> pid a < pid b)) ranked"
      by (rule sorted_wrt_tie_break)
    then show ?thesis
      by (rule sorted_wrt_mono_rel[rotated]) auto
  qed
  from rk out perm desc stable tie show ?thesis by blast
qed

theorem C3_witness:
  "list_all (\<lambda>p. \<exists>r. cpu_percent p = Some (PyNum r))
       [\<lparr>pid = 3, name = ''y'', cpu_percent = Some (PyNum 5)\<rparr>,
        \<lparr>pid = 7, name = ''x'', cpu_percent = Some (PyNum 5)\<rparr>,
        \<lparr>pid = 9, name = ''z'', cpu_percent = Some (PyNum 8)\<rparr>]
   \<and> (0::int) \<le> 2
   \<and> sorted_wrt (\<lambda>a b. pid a < pid b)
         [\<lparr>pid = 3, name = ''y'', cpu_percent = Some (PyNum 5)\<rparr>,
          \<lparr>pid = 7, name = ''x'', cpu_percent = Some (PyNum 5)\<rparr>,
          \<lparr>pid = 9, name = ''z'', cpu_percent = Some (PyNum 8)\<rparr>]
   \<and> rank [\<lparr>pid = 3, name = ''y'', cpu_percent = Some (PyNum 5)\<rparr>,
            \<lparr>pid = 7, name = ''x'', cpu_percent = Some (PyNum 5)\<rparr>,
            \<lparr>pid = 9, name = ''z'', cpu_percent = Some (PyNum 8)\<rparr>]
       = Inr [\<lparr>pid = 9, name = ''z'', cpu_percent = Some (PyNum 8)\<rparr>,
              \<lparr>pid = 3, name = ''y'', cpu_percent = Some (PyNum 5)\<rparr>,
              \<lparr>pid = 7, name = ''x'', cpu_percent = Some (PyNum 5)\<rparr>]
   \<and> top_cpu_processes 2 (Inr
           [\<lparr>pid = 3, name = ''y'', cpu_percent = Some (PyNum 5)\<rparr>,
            \<lparr>pid = 7, name = ''x'', cpu_percent = Some (PyNum 5)\<rparr>,
            \<lparr>pid = 9, name = ''z'', cpu_percent = Some (PyNum 8)\<rparr>])
       = ([Header ''TOP 2 CPU PROCESSES'', ProcLine 9 ''z'' (PyNum 8), ProcLine 3 ''y'' (PyNum 5)], None)"
  using C3_rank_stable_descending [of
           "[\<lparr>pid = 3, name = ''y'', cpu_percent = Some (PyNum 5)\<rparr>,
             \<lparr>pid = 7, name = ''x'', cpu_percent = Some (PyNum 5)\<rparr>,
             \<lparr>pid = 9, name = ''z'', cpu_percent = Some (PyNum 8)\<rparr>]" 2]
  by (simp add: rank_eval)


text \<open>
  C9, as the specification has it: every process list in which some entry holds a \<^verbatim>\<open>cpu_percent\<close> that is
  present and is not a number makes the sort fail. A list of one entry is sorted
  without any comparison, so the ranker returns it, whatever its key is.
\<close>

theorem C9_counterexample:
  "rank [\<lparr>pid = 1, name = ''init'', cpu_percent = Some PyNone\<rparr>]
     = Inr [\<lparr>pid = 1, name = ''init'', cpu_percent = Some PyNone\<rparr>]
   \<and> top_cpu_processes 3 (Inr [\<lparr>pid = 1, name = ''init'', cpu_percent = Some PyNone\<rparr>])
     = ([Header ''TOP 3 CPU PROCESSES'', ProcLine 1 ''init'' PyNone], None)"
  by (simp add: rank_eval)

text \<open>
  C9, as the code has it: the fallback to usage 0 applies only to an entry whose \<^verbatim>\<open>cpu_percent\<close>
  is missing; a value that is present is the sort key as it is. For every process list
  of at least two entries in which some entry holds a present \<^verbatim>\<open>None\<close>, a comparison of
  the sort raises \<^verbatim>\<open>TypeError\<close> and the ranker fails with it after its header; these are
  the only lists on which the sort fails. So the sort returns exactly when the list
  has fewer than two entries or every present \<^verbatim>\<open>cpu_percent\<close> is a number.
\<close>

theorem C9_sort_fails_on_present_None:
  "(cpu_percent p = None \<longrightarrow> usage_key p = PyNum 0)
   \<and> (cpu_percent p = Some v \<longrightarrow> usage_key p = v)
   \<and> (rank procs = Inl TypeError \<longleftrightarrow>
        2 \<le> length procs \<and> (\<exists>q \<in> set procs. cpu_percent q = Some PyNone))
   \<and> (rank procs = Inl e \<longrightarrow> e = TypeError)
   \<and> ((\<exists>ranked. rank procs = Inr ranked) \<longleftrightarrow>
        length procs \<le> 1 \<or> (\<forall>q \<in> set procs. cpu_percent q \<noteq> Some PyNone))
   \<and> (2 \<le> length procs \<and> (\<exists>q \<in> set procs. cpu_percent q = Some PyNone) \<longrightarrow>
        top_cpu_processes n (Inr procs)
          = ([Header (''TOP '' @ show_int n @ '' CPU PROCESSES'')], Some TypeError))"
proof -
  have fails: "rank procs = Inl TypeError \<longleftrightarrow>
        2 \<le> length procs \<and> (\<exists>q \<in> set procs. cpu_percent q = Some PyNone)"
    by (simp add: rank_def py_sorted_reverse_fails_iff usage_key_None_iff)
  have err_any: "x = TypeError" if "rank procs = Inl x" for x
    using that unfolding rank_def by (rule py_sorted_reverse_error)
  then have err: "rank procs = Inl e \<longrightarrow> e = TypeError"
    by blast
  have "(\<exists>ranked. rank procs = Inr ranked) \<longleftrightarrow> rank procs \<noteq> Inl TypeError"
    using err_any by (cases "rank procs") auto
  then have returns: "(\<exists>ranked. rank procs = Inr ranked) \<longleftrightarrow>
        length procs \<le> 1 \<or> (\<forall>q \<in> set procs. cpu_percent q \<noteq> Some PyNone)"
    unfolding fails by auto
  have out: "top_cpu_processes n (Inr procs)
          = ([Header (''TOP '' @ show_int n @ '' CPU PROCESSES'')], Some TypeError)"
    if "2 \<le> length procs \<and> (\<exists>q \<in> set procs. cpu_percent q = Some PyNone)"
  proof -
    from that fails have "rank procs = Inl TypeError" by blast
    then show ?thesis by (simp add: top_cpu_processes_def)
  qed
  from fails err returns out show ?thesis
    by (simp add: usage_key_simps)
qed

theorem C9_witness:
  "(2::nat) \<le> length [\<lparr>pid = 1, name = ''init'', cpu_percent = Some PyNone\<rparr>,
                        \<lparr>pid = 2, name = ''sh'', cpu_percent = Some (PyNum 0)\<rparr>]
   \<and> (\<exists>q \<in> set [\<lparr>pid = 1, name = ''init'', cpu_percent = Some PyNone\<rparr>,
                  \<lparr>pid = 2, name = ''sh'', cpu_percent = Some (PyNum 0)\<rparr>].
         cpu_percent q = Some PyNone)
   \<and> rank [\<lparr>pid = 1, name = ''init'', cpu_percent = Some PyNone\<rparr>,
            \<lparr>pid = 2, name = ''sh'', cpu_percent = Some (PyNum 0)\<rparr>] = Inl TypeError
   \<and> top_cpu_processes 3 (Inr [\<lparr>pid = 1, name = ''init'', cpu_percent = Some PyNone\<rparr>,
                                \<lparr>pid = 2, name = ''sh'', cpu_percent = Some (PyNum 0)\<rparr>])
       = ([Header ''TOP 3 CPU PROCESSES''], Some TypeError)
   \<and> usage_key \<lparr>pid = 1, name = ''init'', cpu_percent = Some PyNone\<rparr> = PyNone
   \<and> usage_key \<lparr>pid = 1, name = ''init'', cpu_percent = None\<rparr> = PyNum 0"
  using C9_sort_fails_on_present_None [where n = 3 and v = PyNone
          and p = "\<lparr>pid = 1, name = ''init'', cpu_percent = Some PyNone\<rparr>"
          and procs = "[\<lparr>pid = 1, name = ''init'', cpu_percent = Some PyNone\<rparr>,
                        \<lparr>pid = 2, name = ''sh'', cpu_percent = Some (PyNum 0)\<rparr>]"]
  by (simp add: rank_eval)

section \<open>A property of the report driver\<close>

text \<open>
  C6. The sections of the report are expected to be isolated: a failure inside one of
  them is reported as one error line of that section, and every other section still
  runs. \<^verbatim>\<open>top_cpu_processes\<close> has no handler, and \<^verbatim>\<open>main\<close> has none around it. On a
  host where one of two processes has no readable CPU value (\<^verbatim>\<open>cpu_percent\<close> is
  \<^verbatim>\<open>None\<close>) the sort raises \<^verbatim>\<open>TypeError\<close>; on a host where the process list cannot be
  enumerated the enumeration raises. In both runs the exception leaves \<^verbatim>\<open>main\<close>
  after the header of the CPU section: no error line is printed, and the two
  temperature sections, which would print their lines, never run.
\<close>

theorem C6_cpu_failure_aborts_report:
  "main \<lparr>get_basic_info = ([Header ''SYSTEM INFO''], None),
         check_network = ([Header ''NETWORK''], None),
         show_memory = ([Header ''MEMORY''], None),
         show_disks = ([Header ''DISK USAGE''], None),
         fs_root = (\<lambda>p. None),
         process_iter = Inr [\<lparr>pid = 1, name = ''init'', cpu_percent = Some PyNone\<rparr>,
                             \<lparr>pid = 2, name = ''sh'', cpu_percent = Some (PyNum 0)\<rparr>],
         show_temperatures = ([Header ''SYSTEM TEMPERATURES'', Line ''temp1: +40.0 C''], None),
         show_nvidia_temperature = ([Line ''GPU 0: 50 C''], None)\<rparr>
        \<lparr>path = ''/home'', largest = 3, cpu = 3, no_temp = False, no_nvidia = False\<rparr>
     = ([Header ''SYSTEM INFO'', Header ''NETWORK'', Header ''MEMORY'', Header ''DISK USAGE'',
         Header ''3 LARGEST FILES in /home'', Header ''TOP 3 CPU PROCESSES''], Some TypeError)
   \<and> main \<lparr>get_basic_info = ([Header ''SYSTEM INFO''], None),
         check_network = ([Header ''NETWORK''], None),
         show_memory = ([Header ''MEMORY''], None),
         show_disks = ([Header ''DISK USAGE''], None),
         fs_root = (\<lambda>p. None),
         process_iter = Inl (OSError ''process list unavailable''),
         show_temperatures = ([Header ''SYSTEM TEMPERATURES'', Line ''temp1: +40.0 C''], None),
         show_nvidia_temperature = ([Line ''GPU 0: 50 C''], None)\<rparr>
        \<lparr>path = ''/home'', largest = 3, cpu = 3, no_temp = False, no_nvidia = False\<rparr>
     = ([Header ''SYSTEM INFO'', Header ''NETWORK'', Header ''MEMORY'', Header ''DISK USAGE'',
         Header ''3 LARGEST FILES in /home'', Header ''TOP 3 CPU PROCESSES''],
        Some (OSError ''process list unavailable''))"
  by (simp add: main_def rank_eval scan_eval)

end
